theory Spec2Isabelle
  imports Main
begin

section \<open>JavaScript numbers\<close>

text \<open>
  The converter of \<^verbatim>\<open>src/pages/SalesReport.tsx\<close> computes on JavaScript Numbers that
  hold integers.  They are modelled as \<open>int\<close>; double arithmetic on integers is exact
  below \<open>2 ^ 53\<close>, and every theorem about all inputs below carries a bound on the
  year that keeps each intermediate value inside that range.

  \<^verbatim>\<open>x | 0\<close> is ToInt32: the value is wrapped into the signed 32-bit range.
  \<^verbatim>\<open>a / b\<close> followed by \<^verbatim>\<open>| 0\<close> drops the fraction towards zero, and
  \<^verbatim>\<open>a % b\<close> takes the sign of the dividend.  Both differ from \<open>div\<close> and
  \<open>mod\<close> of HOL, which round towards minus infinity.
\<close>

definition ToInt32 :: "int \<Rightarrow> int" where
  "ToInt32 x = (x + 2 ^ 31) mod 2 ^ 32 - 2 ^ 31"

definition trunc_quot :: "int \<Rightarrow> int \<Rightarrow> int" where
  \<comment> \<open>the quotient \<^verbatim>\<open>a / b\<close> with its fraction dropped (0 for \<^verbatim>\<open>b = 0\<close>, as
      \<^verbatim>\<open>Infinity | 0\<close> and \<^verbatim>\<open>NaN | 0\<close> are 0)\<close>
  "trunc_quot a b = sgn a * sgn b * (\<bar>a\<bar> div \<bar>b\<bar>)"

definition js_rem :: "int \<Rightarrow> int \<Rightarrow> int" where
  \<comment> \<open>\<^verbatim>\<open>a % b\<close> for \<^verbatim>\<open>b \<noteq> 0\<close>; every divisor in the source is a nonzero constant\<close>
  "js_rem a b = sgn a * (\<bar>a\<bar> mod \<bar>b\<bar>)"

definition div_js :: "int \<Rightarrow> int \<Rightarrow> int" where
  \<comment> \<open>\<^verbatim>\<open>function div(a, b) { return (a / b) | 0; }\<close>\<close>
  "div_js a b = ToInt32 (trunc_quot a b)"


section \<open>jalaliToGregorian\<close>

text \<open>
  \<^verbatim>\<open>for (let i = 0; i < jm; ++i) j_day_no += (i < 6) ? 31 : 30;\<close>
\<close>

function add_month_days :: "int \<Rightarrow> int \<Rightarrow> int \<Rightarrow> int" where
  "add_month_days i jm j_day_no =
     (if i < jm then add_month_days (i + 1) jm (j_day_no + (if i < 6 then 31 else 30))
      else j_day_no)"
  by pat_completeness auto
termination
  by (relation "measure (\<lambda>(i, jm, j_day_no). nat (jm - i))") auto

declare add_month_days.simps [simp del]

text \<open>
  \<^verbatim>\<open>if (g_day_no >= 36525) { g_day_no--; gy += 100 * div(g_day_no, 36524);
     g_day_no = g_day_no % 36524; if (g_day_no >= 365) g_day_no++; else leap = false; }\<close>
  on the triple of the mutable locals \<^verbatim>\<open>gy\<close>, \<^verbatim>\<open>g_day_no\<close>, \<^verbatim>\<open>leap\<close>.
\<close>

definition century_step :: "int \<times> int \<times> bool \<Rightarrow> int \<times> int \<times> bool" where
  "century_step s =
     (case s of (gy, g_day_no, leap) \<Rightarrow>
        if g_day_no \<ge> 36525 then
          (let g1 = g_day_no - 1;
               gy1 = gy + 100 * div_js g1 36524;
               g2 = js_rem g1 36524
           in if g2 \<ge> 365 then (gy1, g2 + 1, leap) else (gy1, g2, False))
        else (gy, g_day_no, leap))"

text \<open>\<^verbatim>\<open>gy += 4 * div(g_day_no, 1461); g_day_no %= 1461;\<close>\<close>

definition quad_step :: "int \<times> int \<times> bool \<Rightarrow> int \<times> int \<times> bool" where
  "quad_step s =
     (case s of (gy, g_day_no, leap) \<Rightarrow>
        (gy + 4 * div_js g_day_no 1461, js_rem g_day_no 1461, leap))"

text \<open>
  \<^verbatim>\<open>if (g_day_no >= 366) { leap = false; g_day_no--; gy += div(g_day_no, 365);
     g_day_no = g_day_no % 365; }\<close>
\<close>

definition year_step :: "int \<times> int \<times> bool \<Rightarrow> int \<times> int \<times> bool" where
  "year_step s =
     (case s of (gy, g_day_no, leap) \<Rightarrow>
        if g_day_no \<ge> 366 then
          (let g1 = g_day_no - 1
           in (gy + div_js g1 365, js_rem g1 365, False))
        else (gy, g_day_no, leap))"

definition gdMonthDays :: "bool \<Rightarrow> int list" where
  "gdMonthDays leap = [31, (if leap then 29 else 28), 31, 30, 31, 30, 31, 31, 30, 31, 30, 31]"

text \<open>
  \<^verbatim>\<open>while (gm < 12 && g_day_no >= gdMonthDays[gm]) { g_day_no -= gdMonthDays[gm]; gm++; }\<close>
  The guard \<^verbatim>\<open>gm < 12\<close> keeps every read of the twelve-element table in range.
\<close>

function month_walk :: "int list \<Rightarrow> nat \<Rightarrow> int \<Rightarrow> nat \<times> int" where
  "month_walk ds gm g_day_no =
     (if gm < 12 \<and> g_day_no \<ge> ds ! gm then month_walk ds (gm + 1) (g_day_no - ds ! gm)
      else (gm, g_day_no))"
  by pat_completeness auto
termination
  by (relation "measure (\<lambda>(ds, gm, g_day_no). 12 - gm)") auto

declare month_walk.simps [simp del]

definition jalaliToGregorian :: "int \<Rightarrow> int \<Rightarrow> int \<Rightarrow> int \<times> int \<times> int" where
  "jalaliToGregorian jy0 jm0 jd0 =
     (let jy = jy0 - 979;
          jm = jm0 - 1;
          jd = jd0 - 1;
          j_day_no = 365 * jy + div_js jy 33 * 8 + div_js (js_rem jy 33 + 3) 4;
          j_day_no = add_month_days 0 jm j_day_no;
          j_day_no = j_day_no + jd;
          g_day_no = j_day_no + 79;
          gy = 1600 + 400 * div_js g_day_no 146097;
          g_day_no = js_rem g_day_no 146097
      in case year_step (quad_step (century_step (gy, g_day_no, True))) of
           (gy, g_day_no, leap) \<Rightarrow>
             (case month_walk (gdMonthDays leap) 0 g_day_no of
                (gm, g_day_no) \<Rightarrow> (gy, int gm + 1, g_day_no + 1)))"


section \<open>JavaScript strings\<close>

text \<open>
  A JavaScript string is a sequence of UTF-16 code units.  The Persian digits
  U+06F0 to U+06F9 do not fit a byte, so a string is a list of code-unit numbers.
\<close>

type_synonym jsstring = "nat list"

definition ascii :: "string \<Rightarrow> jsstring" where
  \<comment> \<open>the code units of a string literal of ASCII characters\<close>
  "ascii str = map of_char str"

definition persian_digits :: jsstring where
  \<comment> \<open>the literal of the ten Persian digits, zero to nine, in the replacer callback\<close>
  "persian_digits = [0x6F0, 0x6F1, 0x6F2, 0x6F3, 0x6F4, 0x6F5, 0x6F6, 0x6F7, 0x6F8, 0x6F9]"

fun indexOf_from :: "jsstring \<Rightarrow> nat \<Rightarrow> int \<Rightarrow> int" where
  "indexOf_from [] d i = - 1"
| "indexOf_from (c # cs) d i = (if c = d then i else indexOf_from cs d (i + 1))"

definition indexOf :: "jsstring \<Rightarrow> nat \<Rightarrow> int" where
  \<comment> \<open>\<^verbatim>\<open>str.indexOf(d)\<close> for a one-unit string \<^verbatim>\<open>d\<close>\<close>
  "indexOf str d = indexOf_from str d 0"

fun digits_of :: "nat \<Rightarrow> jsstring" where
  "digits_of n = (if n < 10 then [48 + n] else digits_of (n div 10) @ [48 + n mod 10])"

declare digits_of.simps [simp del]

definition String_js :: "int \<Rightarrow> jsstring" where
  \<comment> \<open>\<^verbatim>\<open>String(n)\<close> and template interpolation of an integer: decimal, with a
      minus sign (unit 45) when negative\<close>
  "String_js n = (if n < 0 then 45 # digits_of (nat (- n)) else digits_of (nat n))"

definition padStart :: "jsstring \<Rightarrow> nat \<Rightarrow> jsstring \<Rightarrow> jsstring" where
  "padStart str n fill =
     (if n \<le> length str \<or> fill = [] then str
      else take (n - length str) (concat (replicate (n - length str) fill)) @ str)"

definition is_persian_digit :: "nat \<Rightarrow> bool" where
  \<comment> \<open>the character class of the replace pattern: U+06F0 to U+06F9\<close>
  "is_persian_digit c = (0x6F0 \<le> c \<and> c \<le> 0x6F9)"

definition replace_persian :: "jsstring \<Rightarrow> jsstring" where
  \<comment> \<open>\<^verbatim>\<open>s.replace(re, (d) => String(digits.indexOf(d)))\<close>, where \<^verbatim>\<open>re\<close> is the
      global pattern of that class and \<^verbatim>\<open>digits\<close> the literal above\<close>
  "replace_persian s =
     concat (map (\<lambda>d. if is_persian_digit d then String_js (indexOf persian_digits d) else [d]) s)"

definition is_js_space :: "nat \<Rightarrow> bool" where
  \<comment> \<open>the WhiteSpace and LineTerminator code units that \<^verbatim>\<open>trim\<close> strips\<close>
  "is_js_space c =
     (c \<in> {0x9, 0xA, 0xB, 0xC, 0xD, 0x20, 0xA0, 0x1680, 0x2028, 0x2029, 0x202F, 0x205F,
            0x3000, 0xFEFF}
      \<or> (0x2000 \<le> c \<and> c \<le> 0x200A))"

definition trim :: "jsstring \<Rightarrow> jsstring" where
  "trim s = rev (dropWhile is_js_space (rev (dropWhile is_js_space s)))"

definition is_digit :: "nat \<Rightarrow> bool" where
  \<comment> \<open>\<^verbatim>\<open>\d\<close>, the ASCII digits only\<close>
  "is_digit c = (48 \<le> c \<and> c \<le> 57)"

definition is_sep :: "nat \<Rightarrow> bool" where
  \<comment> \<open>\<^verbatim>\<open>(?:/|-)\<close>\<close>
  "is_sep c = (c = 47 \<or> c = 45)"

text \<open>
  The pattern \<^verbatim>\<open>^(\d{4})(?:/|-)(\d{1,2})(?:/|-)(\d{1,2})$\<close> has no flags, so
  \<^verbatim>\<open>^\<close> and \<^verbatim>\<open>$\<close> are the two ends of the input.  \<open>try_match a b\<close> is one
  path of the backtracking matcher: the second group takes \<open>a\<close> units and the third
  \<open>b\<close>.  The quantifiers are greedy, so the matcher tries two units before one.
\<close>

definition try_match :: "nat \<Rightarrow> nat \<Rightarrow> jsstring \<Rightarrow> (jsstring \<times> jsstring \<times> jsstring) option" where
  "try_match a b s =
     (let g1 = take 4 s; s1 = drop 4 s;
          p1 = take 1 s1; s2 = drop 1 s1;
          g2 = take a s2; s3 = drop a s2;
          p2 = take 1 s3; s4 = drop 1 s3;
          g3 = take b s4; s5 = drop b s4
      in if length g1 = 4 \<and> list_all is_digit g1
            \<and> length p1 = 1 \<and> list_all is_sep p1
            \<and> length g2 = a \<and> list_all is_digit g2
            \<and> length p2 = 1 \<and> list_all is_sep p2
            \<and> length g3 = b \<and> list_all is_digit g3
            \<and> s5 = []
         then Some (g1, g2, g3) else None)"

definition match_date :: "jsstring \<Rightarrow> (jsstring \<times> jsstring \<times> jsstring) option" where
  "match_date s =
     (case try_match 2 2 s of Some m \<Rightarrow> Some m | None \<Rightarrow>
      (case try_match 2 1 s of Some m \<Rightarrow> Some m | None \<Rightarrow>
       (case try_match 1 2 s of Some m \<Rightarrow> Some m | None \<Rightarrow>
        try_match 1 1 s)))"

definition parseInt10 :: "jsstring \<Rightarrow> int" where
  \<comment> \<open>\<^verbatim>\<open>parseInt(g, 10)\<close> on a group of the match, which holds ASCII digits only\<close>
  "parseInt10 g = foldl (\<lambda>acc c. 10 * acc + (int c - 48)) 0 g"


section \<open>parseJalaliDateString and toGregorianISO\<close>

definition parseJalaliDateString :: "jsstring \<Rightarrow> (int \<times> int \<times> int) option" where
  "parseJalaliDateString s =
     (let normalized = trim (replace_persian s)
      in case match_date normalized of
           None \<Rightarrow> None
         | Some (g1, g2, g3) \<Rightarrow>
             (let jy = parseInt10 g1; jm = parseInt10 g2; jd = parseInt10 g3
              in if jm < 1 \<or> jm > 12 \<or> jd < 1 \<or> jd > 31 then None else Some (jy, jm, jd)))"

definition toGregorianISO :: "jsstring \<Rightarrow> jsstring option" where
  \<comment> \<open>\<open>None\<close> is \<^verbatim>\<open>undefined\<close>; unit 48 is the pad \<^verbatim>\<open>'0'\<close>, unit 45 the hyphen\<close>
  "toGregorianISO s =
     (case parseJalaliDateString s of
        None \<Rightarrow> None
      | Some (p0, p1, p2) \<Rightarrow>
          (case jalaliToGregorian p0 p1 p2 of
             (gy, gm, gd) \<Rightarrow>
               (let mm = padStart (String_js gm) 2 [48];
                    dd = padStart (String_js gd) 2 [48]
                in Some (String_js gy @ [45] @ mm @ [45] @ dd))))"


section \<open>The sales-summary query\<close>

text \<open>
  \<^verbatim>\<open>getSalesSummary(from?, to?)\<close> builds the \<^verbatim>\<open>params\<close> object of the request:
  \<^verbatim>\<open>if (from) params.from = from; if (to) params.to = to;\<close>.  An optional string is
  truthy when it is defined and not empty.  The page calls it with
  \<^verbatim>\<open>fromG || undefined\<close> and \<^verbatim>\<open>toG || undefined\<close>.
\<close>

definition truthy :: "jsstring option \<Rightarrow> bool" where
  "truthy v = (case v of None \<Rightarrow> False | Some str \<Rightarrow> str \<noteq> [])"

definition or_undefined :: "jsstring option \<Rightarrow> jsstring option" where
  "or_undefined v = (if truthy v then v else None)"

definition getSalesSummary_params :: "jsstring option \<Rightarrow> jsstring option \<Rightarrow> (string \<rightharpoonup> jsstring)" where
  "getSalesSummary_params frm to =
     (let params = Map.empty;
          params = (case frm of Some v \<Rightarrow> if truthy frm then params(''from'' \<mapsto> v) else params
                              | None \<Rightarrow> params);
          params = (case to of Some v \<Rightarrow> if truthy to then params(''to'' \<mapsto> v) else params
                             | None \<Rightarrow> params)
      in params)"

definition sales_query_params :: "jsstring \<Rightarrow> jsstring \<Rightarrow> (string \<rightharpoonup> jsstring)" where
  \<comment> \<open>the \<^verbatim>\<open>queryFn\<close> of the page, from the two text fields\<close>
  "sales_query_params fromJ toJ =
     getSalesSummary_params (or_undefined (toGregorianISO fromJ)) (or_undefined (toGregorianISO toJ))"


section \<open>The functions as transformers of a store\<close>













section \<open>The calendar and the reference algorithm of the specification\<close>

text \<open>
  The Gregorian calendar as the specification states it: a year is leap when it is
  divisible by 4, and not by 100 unless also by 400.
\<close>

definition is_leap_year :: "int \<Rightarrow> bool" where
  "is_leap_year y = (y mod 4 = 0 \<and> (y mod 100 \<noteq> 0 \<or> y mod 400 = 0))"

definition daysInMonth :: "int \<Rightarrow> int \<Rightarrow> int" where
  "daysInMonth y m =
     (if m = 2 then (if is_leap_year y then 29 else 28)
      else if m = 4 \<or> m = 6 \<or> m = 9 \<or> m = 11 then 30 else 31)"

definition valid_gregorian :: "int \<times> int \<times> int \<Rightarrow> bool" where
  "valid_gregorian g =
     (case g of (y, m, d) \<Rightarrow> 1 \<le> m \<and> m \<le> 12 \<and> 1 \<le> d \<and> d \<le> daysInMonth y m)"

definition next_day :: "int \<times> int \<times> int \<Rightarrow> int \<times> int \<times> int" where
  \<comment> \<open>the calendar day after a Gregorian date\<close>
  "next_day g =
     (case g of (y, m, d) \<Rightarrow>
        if d < daysInMonth y m then (y, m, d + 1)
        else if m < 12 then (y, m + 1, 1)
        else (y + 1, 1, 1))"

text \<open>
  The nine steps of section 4.1 of the specification, in its words: \<open>floor\<close> is
  \<open>div\<close> and \<open>mod\<close> is \<open>mod\<close> of HOL, and the century correction applies from a
  remaining day count of 36524.
\<close>

definition spec_month_offset :: "int \<Rightarrow> int" where
  \<comment> \<open>step 3: months 0 to 5 contribute 31 days each, months 6 to 11 contribute 30\<close>
  "spec_month_offset jm' = sum_list (map (\<lambda>i. if i < 6 then 31 else 30) [0..<nat jm'])"

definition spec_century :: "int \<times> int \<times> bool \<Rightarrow> int \<times> int \<times> bool" where
  \<comment> \<open>step 6\<close>
  "spec_century s =
     (case s of (gregYear, dayCount, leap) \<Rightarrow>
        if dayCount \<ge> 36524 then
          (let d1 = dayCount - 1;
               y1 = gregYear + 100 * (d1 div 36524) * 1;
               d2 = d1 mod 36524
           in if d2 \<ge> 365 then (y1, d2 + 1, leap) else (y1, d2, False))
        else (gregYear, dayCount, leap))"

definition spec_quad :: "int \<times> int \<times> bool \<Rightarrow> int \<times> int \<times> bool" where
  \<comment> \<open>step 7\<close>
  "spec_quad s =
     (case s of (gregYear, dayCount, leap) \<Rightarrow>
        (gregYear + 4 * (dayCount div 1461), dayCount mod 1461, leap))"

definition spec_year :: "int \<times> int \<times> bool \<Rightarrow> int \<times> int \<times> bool" where
  \<comment> \<open>step 8\<close>
  "spec_year s =
     (case s of (gregYear, dayCount, leap) \<Rightarrow>
        if dayCount \<ge> 366 then
          (let d1 = dayCount - 1 in (gregYear + d1 div 365, d1 mod 365, False))
        else (gregYear, dayCount, leap))"

fun spec_walk :: "int list \<Rightarrow> nat \<Rightarrow> int \<Rightarrow> nat \<times> int" where
  \<comment> \<open>step 9: subtract month lengths until the remainder is smaller than the current one\<close>
  "spec_walk [] m d = (m, d)"
| "spec_walk (l # ls) m d = (if d < l then (m, d) else spec_walk ls (m + 1) (d - l))"

definition spec_convert :: "int \<Rightarrow> int \<Rightarrow> int \<Rightarrow> int \<times> int \<times> int" where
  "spec_convert jy jm jd =
     (let jy' = jy - 979;
          jm' = jm - 1;
          jd' = jd - 1;
          dayCount = 365 * jy' + (jy' div 33) * 8 + ((jy' mod 33) + 3) div 4;
          dayCount = dayCount + spec_month_offset jm' + jd';
          dayCount = dayCount + 79;
          gregYear = 1600 + 400 * (dayCount div 146097);
          dayCount = dayCount mod 146097
      in case spec_year (spec_quad (spec_century (gregYear, dayCount, True))) of
           (gregYear, dayCount, leap) \<Rightarrow>
             (case spec_walk [31, (if leap then 29 else 28), 31, 30, 31, 30, 31, 31, 30, 31, 30, 31]
                     0 dayCount of
                (m, d) \<Rightarrow> (gregYear, int m + 1, d + 1)))"

text \<open>
  The date pattern of section 4.2 in the specification's words: four digits, a
  separator, one or two digits, a separator, one or two digits, and nothing else.
\<close>

definition date_shape :: "jsstring \<Rightarrow> nat \<Rightarrow> jsstring \<Rightarrow> nat \<Rightarrow> jsstring \<Rightarrow> bool" where
  "date_shape y p1 m p2 d =
     (length y = 4 \<and> list_all is_digit y \<and> is_sep p1
      \<and> (length m = 1 \<or> length m = 2) \<and> list_all is_digit m \<and> is_sep p2
      \<and> (length d = 1 \<or> length d = 2) \<and> list_all is_digit d)"

fun decimal_rev :: "jsstring \<Rightarrow> int" where
  \<comment> \<open>the value of ASCII digits given from the units upwards\<close>
  "decimal_rev [] = 0"
| "decimal_rev (c # cs) = (int c - 48) + 10 * decimal_rev cs"

definition decimal_value :: "jsstring \<Rightarrow> int" where
  \<comment> \<open>the integer that a string of ASCII digits denotes\<close>
  "decimal_value ds = decimal_rev (rev ds)"

definition latin_of_persian :: "nat \<Rightarrow> nat" where
  \<comment> \<open>a Persian digit U+06F0 to U+06F9 becomes its Latin digit; other units stay\<close>
  "latin_of_persian c = (if 0x6F0 \<le> c \<and> c \<le> 0x6F9 then c - 0x6F0 + 48 else c)"

definition spec_normalize :: "jsstring \<Rightarrow> jsstring" where
  \<comment> \<open>strip leading and trailing whitespace, then map the Persian digits\<close>
  "spec_normalize s = map latin_of_persian (trim s)"

definition to_persian :: "jsstring \<Rightarrow> jsstring" where
  \<comment> \<open>each Latin digit replaced by the Persian digit of the same value\<close>
  "to_persian s = map (\<lambda>c. if is_digit c then c - 48 + 0x6F0 else c) s"

definition slash_to_dash :: "jsstring \<Rightarrow> jsstring" where
  "slash_to_dash s = map (\<lambda>c. if c = 47 then 45 else c) s"

definition dash_to_slash :: "jsstring \<Rightarrow> jsstring" where
  "dash_to_slash s = map (\<lambda>c. if c = 45 then 47 else c) s"

definition zero_pad2 :: "jsstring \<Rightarrow> jsstring" where
  \<comment> \<open>zero-padding to two digits\<close>
  "zero_pad2 str = replicate (2 - length str) 48 @ str"

definition format_iso :: "int \<times> int \<times> int \<Rightarrow> jsstring" where
  \<comment> \<open>year, padded month and padded day joined by hyphens\<close>
  "format_iso g =
     (case g of (y, m, d) \<Rightarrow>
        String_js y @ [45] @ zero_pad2 (String_js m) @ [45] @ zero_pad2 (String_js d))"


section \<open>Arithmetic of the converter on non-negative day counts\<close>

lemma ToInt32_id: "- (2 ^ 31) \<le> x \<Longrightarrow> x < 2 ^ 31 \<Longrightarrow> ToInt32 x = x"
  by (simp add: ToInt32_def)

lemma ToInt32_range: "- (2 ^ 31) \<le> ToInt32 x \<and> ToInt32 x < 2 ^ 31"
proof -
  have "0 \<le> (x + 2 ^ 31) mod (2 ^ 32 :: int)" "(x + 2 ^ 31) mod (2 ^ 32 :: int) < 2 ^ 32"
    by simp_all
  then show ?thesis by (simp add: ToInt32_def)
qed

lemma trunc_quot_nonneg: "0 \<le> a \<Longrightarrow> 0 < b \<Longrightarrow> trunc_quot a b = a div b"
  by (cases "a = 0") (simp_all add: trunc_quot_def)

lemma js_rem_nonneg: "0 \<le> a \<Longrightarrow> 0 < b \<Longrightarrow> js_rem a b = a mod b"
  by (cases "a = 0") (simp_all add: js_rem_def)

lemma div_js_nonneg: "0 \<le> a \<Longrightarrow> 0 < b \<Longrightarrow> a < 2 ^ 31 * b \<Longrightarrow> div_js a b = a div b"
proof -
  assume a: "0 \<le> a" and b: "0 < b" and lt: "a < 2 ^ 31 * b"
  have e: "b * (a div b) + a mod b = a" by simp
  have m: "0 \<le> a mod b" using b by simp
  have lt': "a < b * 2 ^ 31" using lt by (simp only: mult.commute)
  have "b * (a div b) < b * 2 ^ 31" using e m lt' by linarith
  then have "a div b < 2 ^ 31" using b by (simp only: mult_less_cancel_left_pos)
  moreover have "0 \<le> a div b" using a b by (simp add: pos_imp_zdiv_nonneg_iff)
  ultimately show ?thesis using a b by (simp add: div_js_def trunc_quot_nonneg ToInt32_id)
qed

lemma century_step_eq:
  assumes "0 \<le> g" "g < 146097"
  shows "century_step (gy, g, l) =
     (if g \<ge> 36525 then
        (if (g - 1) mod 36524 \<ge> 365
         then (gy + 100 * ((g - 1) div 36524), (g - 1) mod 36524 + 1, l)
         else (gy + 100 * ((g - 1) div 36524), (g - 1) mod 36524, False))
      else (gy, g, l))"
  using assms by (simp add: century_step_def Let_def div_js_nonneg js_rem_nonneg)

lemma quad_step_eq:
  assumes "0 \<le> g" "g < 146097"
  shows "quad_step (gy, g, l) = (gy + 4 * (g div 1461), g mod 1461, l)"
  using assms by (simp add: quad_step_def div_js_nonneg js_rem_nonneg)

lemma year_step_eq:
  assumes "0 \<le> g" "g < 146097"
  shows "year_step (gy, g, l) =
     (if g \<ge> 366 then (gy + (g - 1) div 365, (g - 1) mod 365, False) else (gy, g, l))"
  using assms by (simp add: year_step_def Let_def div_js_nonneg js_rem_nonneg)


lemma year_quad_valid:
  assumes x: "0 \<le> x" "x \<le> 36524"
    and Y: "Y mod 100 = 0"
    and lt: "l \<Longrightarrow> x < 366 \<Longrightarrow> Y mod 400 = 0"
    and lf: "\<not> l \<Longrightarrow> x < 365 \<and> Y mod 400 \<noteq> 0"
    and res: "year_step (quad_step (Y, x, l)) = (gy, d, leap)"
  shows "leap = is_leap_year gy \<and> 0 \<le> d \<and> d < (if leap then 366 else 365)"
proof -
  define y4 where "y4 = x div 1461"
  define r4 where "r4 = x mod 1461"
  have dec: "x = 1461 * y4 + r4" and r4: "0 \<le> r4" "r4 < 1461"
    by (simp_all add: y4_def r4_def)
  have y4: "0 \<le> y4" "y4 \<le> 24" using dec r4 x by linarith+
  have x': "x < 146097" using x by simp
  have q: "quad_step (Y, x, l) = (Y + 4 * y4, r4, l)"
    unfolding quad_step_eq [OF x(1) x'] y4_def r4_def ..
  have r4': "r4 < 146097" using r4 by simp
  from Y have "100 dvd Y" by (simp add: mod_eq_0_iff_dvd)
  then obtain k where Yk: "Y = 100 * k" by (elim dvdE)
  show ?thesis
  proof (cases "r4 \<ge> 366")
    case True
    define y1 where "y1 = (r4 - 1) div 365"
    define r1 where "r1 = (r4 - 1) mod 365"
    have dec1: "r4 - 1 = 365 * y1 + r1" and r1: "0 \<le> r1" "r1 < 365"
      by (simp_all add: y1_def r1_def)
    have y1: "1 \<le> y1" "y1 \<le> 3" using dec1 r1 r4 True by linarith+
    have "year_step (Y + 4 * y4, r4, l) = (Y + 4 * y4 + y1, r1, False)"
      unfolding year_step_eq [OF r4(1) r4'] y1_def r1_def using True by simp
    with res q have gy: "gy = Y + 4 * y4 + y1" and d: "d = r1" and leap: "leap = False"
      by simp_all
    have "gy = 4 * (25 * k + y4) + y1" using gy Yk by simp
    then have "gy mod 4 = y1 mod 4" by (simp only: mod_mult_self4)
    then have "gy mod 4 \<noteq> 0" using y1 by simp
    then show ?thesis using d leap r1 by (simp add: is_leap_year_def)
  next
    case False
    have "year_step (Y + 4 * y4, r4, l) = (Y + 4 * y4, r4, l)"
      unfolding year_step_eq [OF r4(1) r4'] using False by simp
    with res q have gy: "gy = Y + 4 * y4" and d: "d = r4" and leap: "leap = l"
      by simp_all
    show ?thesis
    proof (cases l)
      case True
      have "gy = 4 * (25 * k + y4)" using gy Yk by simp
      then have m4: "gy mod 4 = 0" by (simp only: mod_mult_self1_is_0)
      have "gy mod 100 \<noteq> 0 \<or> gy mod 400 = 0"
      proof (cases "y4 = 0")
        case True
        then have "x < 366" using dec False by simp
        then have "Y mod 400 = 0" using lt \<open>l\<close> by simp
        then show ?thesis using gy True by simp
      next
        case False
        have "gy mod 100 = (4 * y4) mod 100" using gy Yk by (simp only: mod_mult_self4)
        then have "gy mod 100 \<noteq> 0" using False y4 by simp
        then show ?thesis by simp
      qed
      then show ?thesis using m4 d leap True r4 \<open>\<not> 366 \<le> r4\<close> by (simp add: is_leap_year_def)
    next
      case False
      then have xs: "x < 365" and Y4: "Y mod 400 \<noteq> 0" using lf by simp_all
      then have "y4 = 0" using dec r4 y4 by linarith
      then have "gy = Y" "d = x" using gy d dec by simp_all
      then show ?thesis using Y Y4 xs x leap False by (simp add: is_leap_year_def)
    qed
  qed
qed

lemma tail_valid:
  assumes g: "0 \<le> g" "g < 146097"
    and gy0: "gy0 mod 400 = 0"
    and res: "year_step (quad_step (century_step (gy0, g, True))) = (gy, d, leap)"
  shows "leap = is_leap_year gy \<and> 0 \<le> d \<and> d < (if leap then 366 else 365)"
proof -
  from gy0 have "400 dvd gy0" by (simp add: mod_eq_0_iff_dvd)
  then obtain k where gk: "gy0 = 400 * k" by (elim dvdE)
  have gy0_100: "gy0 mod 100 = 0"
  proof -
    have "gy0 = 100 * (4 * k)" using gk by simp
    then show ?thesis by (simp only: mod_mult_self1_is_0)
  qed
  show ?thesis
  proof (cases "g \<ge> 36525")
  case False
  then have c: "century_step (gy0, g, True) = (gy0, g, True)"
    unfolding century_step_eq [OF g] by simp
  show ?thesis
  proof (rule year_quad_valid [where x = g and Y = gy0 and l = True])
    show "0 \<le> g" by (rule g)
    show "g \<le> 36524" using False by simp
    show "gy0 mod 100 = 0" by (rule gy0_100)
    show "gy0 mod 400 = 0" by (rule gy0)
    show "g < 365 \<and> gy0 mod 400 \<noteq> 0" if "\<not> True" using that by simp
    show "year_step (quad_step (gy0, g, True)) = (gy, d, leap)" using res c by simp
  qed
next
  case True
  define c where "c = (g - 1) div 36524"
  define r where "r = (g - 1) mod 36524"
  have dec: "g - 1 = 36524 * c + r" and r: "0 \<le> r" "r < 36524"
    by (simp_all add: c_def r_def)
  have c: "1 \<le> c" "c \<le> 3" using dec r g True by linarith+
  have "gy0 + 100 * c = 100 * (4 * k + c)" using gk by simp
  then have Y100: "(gy0 + 100 * c) mod 100 = 0" by (simp only: mod_mult_self1_is_0)
  have "(gy0 + 100 * c) mod 400 = (100 * c) mod 400" using gk by (simp only: mod_mult_self4)
  then have Y400: "(gy0 + 100 * c) mod 400 \<noteq> 0" using c by simp
  show ?thesis
  proof (cases "r \<ge> 365")
    case True
    have cs: "century_step (gy0, g, True) = (gy0 + 100 * c, r + 1, True)"
      unfolding century_step_eq [OF g] c_def [symmetric] r_def [symmetric]
      using \<open>36525 \<le> g\<close> True by simp
    show ?thesis
    proof (rule year_quad_valid [where x = "r + 1" and Y = "gy0 + 100 * c" and l = True])
      show "0 \<le> r + 1" using r by simp
      show "r + 1 \<le> 36524" using r by simp
      show "(gy0 + 100 * c) mod 100 = 0" by (rule Y100)
      show "(gy0 + 100 * c) mod 400 = 0" if "r + 1 < 366" using that True by simp
      show "r + 1 < 365 \<and> (gy0 + 100 * c) mod 400 \<noteq> 0" if "\<not> True" using that by simp
      show "year_step (quad_step (gy0 + 100 * c, r + 1, True)) = (gy, d, leap)"
        using res cs by simp
    qed
  next
    case False
    have cs: "century_step (gy0, g, True) = (gy0 + 100 * c, r, False)"
      unfolding century_step_eq [OF g] c_def [symmetric] r_def [symmetric]
      using \<open>36525 \<le> g\<close> False by simp
    show ?thesis
    proof (rule year_quad_valid [where x = r and Y = "gy0 + 100 * c" and l = False])
      show "0 \<le> r" by (rule r)
      show "r \<le> 36524" using r by simp
      show "(gy0 + 100 * c) mod 100 = 0" by (rule Y100)
      show "(gy0 + 100 * c) mod 400 = 0" if "False" using that by simp
      show "r < 365 \<and> (gy0 + 100 * c) mod 400 \<noteq> 0" using False Y400 by simp
      show "year_step (quad_step (gy0 + 100 * c, r, False)) = (gy, d, leap)"
        using res cs by simp
    qed
  qed
qed
qed

lemma month_walk_in_table:
  assumes "length ds = 12" "0 \<le> g" "g < sum_list (drop gm ds)"
  shows "case month_walk ds gm g of (gm', r) \<Rightarrow> gm' < 12 \<and> 0 \<le> r \<and> r < ds ! gm'"
  using assms
proof (induction ds gm g rule: month_walk.induct)
  case (1 ds gm g)
  have lt: "gm < 12"
  proof (rule ccontr)
    assume "\<not> gm < 12"
    then have "drop gm ds = []" using "1.prems" by simp
    then show False using "1.prems" by simp
  qed
  then have split: "drop gm ds = ds ! gm # drop (Suc gm) ds"
    using "1.prems" by (simp add: Cons_nth_drop_Suc)
  show ?case
  proof (cases "g \<ge> ds ! gm")
    case True
    have "g - ds ! gm < sum_list (drop (gm + 1) ds)"
      using "1.prems"(3) split by simp
    then have "case month_walk ds (gm + 1) (g - ds ! gm) of
                 (gm', r) \<Rightarrow> gm' < 12 \<and> 0 \<le> r \<and> r < ds ! gm'"
      using "1.IH" lt True "1.prems"(1) by simp
    moreover have "month_walk ds gm g = month_walk ds (gm + 1) (g - ds ! gm)"
      using lt True by (subst month_walk.simps) simp
    ultimately show ?thesis by simp
  next
    case False
    then have "month_walk ds gm g = (gm, g)"
      by (subst month_walk.simps) simp
    then show ?thesis using lt False "1.prems"(2) by simp
  qed
qed

lemma gdMonthDays_length: "length (gdMonthDays leap) = 12"
  by (simp add: gdMonthDays_def)

lemma gdMonthDays_sum: "sum_list (gdMonthDays leap) = (if leap then 366 else 365)"
  by (simp add: gdMonthDays_def)

lemma gdMonthDays_nth:
  assumes "gm < 12"
  shows "gdMonthDays (is_leap_year y) ! gm = daysInMonth y (int gm + 1)"
proof -
  have "gm \<in> {0, 1, 2, 3, 4, 5, 6, 7, 8, 9, 10, 11}" using assms by simp arith
  then show ?thesis
    by (auto simp: gdMonthDays_def daysInMonth_def)
qed

lemma add_month_days_ge: "acc \<le> add_month_days i jm acc"
proof (induction i jm acc rule: add_month_days.induct)
  case (1 i jm j_day_no)
  show ?case
  proof (cases "i < jm")
    case True
    have "j_day_no \<le> j_day_no + (if i < 6 then 31 else 30)" by simp
    also have "\<dots> \<le> add_month_days (i + 1) jm (j_day_no + (if i < 6 then 31 else 30))"
      using "1.IH" True by simp
    also have "\<dots> = add_month_days i jm j_day_no"
      using True by (subst (2) add_month_days.simps) simp
    finally show ?thesis .
  next
    case False
    then show ?thesis by (subst add_month_days.simps) simp
  qed
qed


lemma rebased_days_nonneg:
  assumes jy: "0 \<le> jy"
  shows "0 \<le> 365 * jy + div_js jy 33 * 8 + div_js (js_rem jy 33 + 3) 4"
proof -
  have r: "js_rem jy 33 = jy mod 33" using jy by (simp add: js_rem_nonneg)
  have "0 \<le> jy mod 33" "jy mod 33 < 33" by simp_all
  then have "div_js (jy mod 33 + 3) 4 = (jy mod 33 + 3) div 4"
    by (intro div_js_nonneg) simp_all
  moreover have "0 \<le> (jy mod 33 + 3) div 4" by simp
  ultimately have b: "0 \<le> div_js (js_rem jy 33 + 3) 4" using r by simp
  have a: "0 \<le> 365 * jy + div_js jy 33 * 8"
  proof (cases "jy < 2 ^ 31 * 33")
    case True
    then have "div_js jy 33 = jy div 33" using jy by (intro div_js_nonneg) simp_all
    moreover have "0 \<le> jy div 33" using jy by simp
    ultimately show ?thesis using jy by simp
  next
    case False
    have "- (2 ^ 31) \<le> div_js jy 33" using ToInt32_range by (simp add: div_js_def)
    then show ?thesis using False by simp
  qed
  show ?thesis using a b by linarith
qed


section \<open>The converter and the reference algorithm\<close>

lemma spec_century_eq:
  assumes g: "0 \<le> g" "g < 146097"
  shows "spec_century (gy, g, l) = century_step (gy, g, l)"
proof -
  consider "g < 36524" | "g = 36524" | "36525 \<le> g" by linarith
  then show ?thesis
  proof cases
    case 1
    then show ?thesis unfolding century_step_eq [OF g] by (simp add: spec_century_def)
  next
    case 2
    then show ?thesis unfolding century_step_eq [OF g] by (simp add: spec_century_def)
  next
    case 3
    then show ?thesis unfolding century_step_eq [OF g] by (simp add: spec_century_def Let_def)
  qed
qed

lemma century_step_range:
  assumes g: "0 \<le> g" "g < 146097"
    and res: "century_step (gy, g, l) = (gy', g', l')"
  shows "0 \<le> g' \<and> g' \<le> 36524"
proof -
  have r: "0 \<le> (g - 1) mod 36524" "(g - 1) mod 36524 < 36524" by simp_all
  show ?thesis
    using res r g(1) unfolding century_step_eq [OF g] by (auto split: if_splits)
qed

lemma spec_quad_eq:
  assumes g: "0 \<le> g" "g < 146097"
  shows "spec_quad (gy, g, l) = quad_step (gy, g, l)"
  unfolding quad_step_eq [OF g] by (simp add: spec_quad_def)

lemma spec_year_eq:
  assumes g: "0 \<le> g" "g < 146097"
  shows "spec_year (gy, g, l) = year_step (gy, g, l)"
  unfolding year_step_eq [OF g] by (simp add: spec_year_def Let_def)

lemma spec_tail_eq:
  assumes g: "0 \<le> g" "g < 146097"
  shows "spec_year (spec_quad (spec_century (gy, g, l)))
         = year_step (quad_step (century_step (gy, g, l)))"
proof -
  obtain Y x l' where c: "century_step (gy, g, l) = (Y, x, l')" by (metis prod_cases3)
  have x: "0 \<le> x" "x \<le> 36524" using century_step_range [OF g c] by simp_all
  then have x': "x < 146097" by simp
  have q: "quad_step (Y, x, l') = (Y + 4 * (x div 1461), x mod 1461, l')"
    by (rule quad_step_eq [OF x(1) x'])
  have m: "0 \<le> x mod 1461" "x mod 1461 < 146097"
  proof -
    show "0 \<le> x mod 1461" by simp
    have "x mod 1461 < 1461" by simp
    then show "x mod 1461 < 146097" by linarith
  qed
  show ?thesis
    by (simp only: spec_century_eq [OF g] c spec_quad_eq [OF x(1) x'] q spec_year_eq [OF m])
qed

lemma spec_walk_eq:
  assumes "length ds = 12" "gm \<le> 12"
  shows "month_walk ds gm d = spec_walk (drop gm ds) gm d"
  using assms
proof (induction ds gm d rule: month_walk.induct)
  case (1 ds gm d)
  show ?case
  proof (cases "gm < 12")
    case True
    then have split: "drop gm ds = ds ! gm # drop (Suc gm) ds"
      using "1.prems" by (simp add: Cons_nth_drop_Suc)
    show ?thesis
    proof (cases "d \<ge> ds ! gm")
      case ge: True
      have "month_walk ds gm d = month_walk ds (gm + 1) (d - ds ! gm)"
        using True ge by (subst month_walk.simps) simp
      also have "\<dots> = spec_walk (drop (gm + 1) ds) (gm + 1) (d - ds ! gm)"
        using "1.IH" True ge "1.prems" by simp
      also have "\<dots> = spec_walk (drop gm ds) gm d"
        using ge by (simp add: split)
      finally show ?thesis .
    next
      case False
      have "month_walk ds gm d = (gm, d)"
        using False by (subst month_walk.simps) simp
      then show ?thesis using False by (simp add: split)
    qed
  next
    case False
    then have "month_walk ds gm d = (gm, d)"
      by (subst month_walk.simps) simp
    then show ?thesis using False "1.prems" by simp
  qed
qed

lemma add_month_days_sum:
  assumes "0 \<le> i"
  shows "add_month_days i jm acc
         = acc + sum_list (map (\<lambda>k. if k < 6 then 31 else 30) [nat i..<nat jm])"
  using assms
proof (induction i jm acc rule: add_month_days.induct)
  case (1 i jm acc)
  show ?case
  proof (cases "i < jm")
    case True
    have u: "[nat i..<nat jm] = nat i # [nat (i + 1)..<nat jm]"
      using True "1.prems" by (simp add: upt_conv_Cons nat_add_distrib)
    have "add_month_days i jm acc = add_month_days (i + 1) jm (acc + (if i < 6 then 31 else 30))"
      using True by (subst add_month_days.simps) simp
    also have "\<dots> = acc + (if i < 6 then 31 else 30)
                  + sum_list (map (\<lambda>k. if k < 6 then 31 else 30) [nat (i + 1)..<nat jm])"
      using "1.IH" True "1.prems" by simp
    also have "(if i < 6 then 31 else 30) = (if nat i < 6 then 31 else (30::int))"
      using "1.prems" by auto
    finally show ?thesis by (simp add: u)
  next
    case False
    then have "add_month_days i jm acc = acc" by (subst add_month_days.simps) simp
    then show ?thesis using False by simp
  qed
qed

lemma month_offset_bound:
  "0 \<le> sum_list (map (\<lambda>k. if k < 6 then 31 else (30::int)) [0..<n])
   \<and> sum_list (map (\<lambda>k. if k < 6 then 31 else (30::int)) [0..<n]) \<le> 31 * int n"
  by (induction n) auto


section \<open>Normalisation of the input string\<close>

lemma persian_digit_string:
  assumes "is_persian_digit d"
  shows "String_js (indexOf persian_digits d) = [latin_of_persian d]"
proof -
  have "d \<in> {0x6F0, 0x6F1, 0x6F2, 0x6F3, 0x6F4, 0x6F5, 0x6F6, 0x6F7, 0x6F8, 0x6F9}"
    using assms unfolding is_persian_digit_def by simp arith
  then show ?thesis
    by (auto simp: indexOf_def persian_digits_def String_js_def digits_of.simps
        latin_of_persian_def)
qed

lemma replace_persian_map: "replace_persian s = map latin_of_persian s"
proof (induction s)
  case Nil
  show ?case by (simp add: replace_persian_def)
next
  case (Cons c s)
  have "(if is_persian_digit c then String_js (indexOf persian_digits c) else [c])
        = [latin_of_persian c]"
    by (simp add: persian_digit_string) (simp add: is_persian_digit_def latin_of_persian_def)
  then show ?case using Cons by (simp add: replace_persian_def)
qed

lemma trim_map:
  assumes "\<And>c. is_js_space (f c) = is_js_space c"
  shows "trim (map f s) = map f (trim s)"
proof -
  have c: "is_js_space \<circ> f = is_js_space" using assms by (simp add: fun_eq_iff)
  have d: "dropWhile is_js_space (map f xs) = map f (dropWhile is_js_space xs)" for xs
    by (simp add: dropWhile_map c)
  show ?thesis by (simp add: trim_def d rev_map)
qed

lemma space_latin_of_persian: "is_js_space (latin_of_persian c) = is_js_space c"
  by (simp add: latin_of_persian_def is_js_space_def) arith

lemma normalize_eq: "trim (replace_persian s) = spec_normalize s"
  by (simp add: replace_persian_map spec_normalize_def trim_map space_latin_of_persian)

lemma parseInt10_snoc: "parseInt10 (g @ [c]) = 10 * parseInt10 g + (int c - 48)"
  by (simp add: parseInt10_def)

lemma parseInt10_decimal: "parseInt10 g = decimal_value g"
  by (induction g rule: rev_induct) (simp_all add: parseInt10_snoc decimal_value_def, simp add: parseInt10_def)


section \<open>The date pattern\<close>

lemma sep_not_digit: "is_sep c \<Longrightarrow> \<not> is_digit c"
  by (auto simp: is_sep_def is_digit_def)

lemma try_match_sound:
  assumes "try_match a b n = Some (y, m, d)"
  shows "\<exists>p1 p2. n = y @ p1 # m @ p2 # d \<and> length y = 4 \<and> list_all is_digit y \<and> is_sep p1
           \<and> length m = a \<and> list_all is_digit m \<and> is_sep p2
           \<and> length d = b \<and> list_all is_digit d"
proof -
  define s1 where "s1 = drop 4 n"
  define s2 where "s2 = drop 1 s1"
  define s3 where "s3 = drop a s2"
  define s4 where "s4 = drop 1 s3"
  define C where "C \<longleftrightarrow>
       length (take 4 n) = 4 \<and> list_all is_digit (take 4 n)
     \<and> length (take 1 s1) = 1 \<and> list_all is_sep (take 1 s1)
     \<and> length (take a s2) = a \<and> list_all is_digit (take a s2)
     \<and> length (take 1 s3) = 1 \<and> list_all is_sep (take 1 s3)
     \<and> length (take b s4) = b \<and> list_all is_digit (take b s4)
     \<and> drop b s4 = []"
  have eq: "try_match a b n = (if C then Some (take 4 n, take a s2, take b s4) else None)"
    unfolding try_match_def Let_def s1_def s2_def s3_def s4_def C_def ..
  from assms eq have C by (cases C) simp_all
  with assms eq have r: "y = take 4 n" "m = take a s2" "d = take b s4" by simp_all
  from \<open>C\<close> have c:
    "length (take 4 n) = 4" "list_all is_digit (take 4 n)"
    "length (take 1 s1) = 1" "list_all is_sep (take 1 s1)"
    "length (take a s2) = a" "list_all is_digit (take a s2)"
    "length (take 1 s3) = 1" "list_all is_sep (take 1 s3)"
    "length (take b s4) = b" "list_all is_digit (take b s4)"
    "drop b s4 = []"
    unfolding C_def by blast+
  from c(3) obtain p1 where s1: "s1 = p1 # s2"
    unfolding s2_def by (cases s1) simp_all
  from c(7) obtain p2 where s3: "s3 = p2 # s4"
    unfolding s4_def by (cases s3) simp_all
  have n: "n = y @ s1" by (simp add: r s1_def)
  have m: "s2 = m @ s3" by (simp add: r s3_def)
  have d: "s4 = d" using c(11) r(3) by (metis append_take_drop_id append_Nil2)
  have "n = y @ p1 # m @ p2 # d" using n s1 m s3 d by simp
  moreover have "is_sep p1" using c(4) s1 by simp
  moreover have "is_sep p2" using c(8) s3 by simp
  ultimately show ?thesis using c r by auto
qed

lemma try_match_complete:
  assumes "n = y @ p1 # m @ p2 # d" "length y = 4" "list_all is_digit y" "is_sep p1"
    "length m = a" "list_all is_digit m" "is_sep p2" "length d = b" "list_all is_digit d"
  shows "try_match a b n = Some (y, m, d)"
  using assms by (simp add: try_match_def)

lemma digits_then_sep:
  assumes "list_all is_digit m" "\<not> is_digit x"
  shows "takeWhile is_digit (m @ x # r) = m" "dropWhile is_digit (m @ x # r) = x # r"
  using assms by (induction m) simp_all

lemma shape_unique:
  assumes e: "y @ p1 # m @ p2 # d = y' @ p1' # m' @ p2' # d'"
    and l: "length y = 4" "length y' = 4"
    and m: "list_all is_digit m" "list_all is_digit m'"
    and p: "is_sep p2" "is_sep p2'"
  shows "y' = y \<and> m' = m \<and> d' = d"
proof -
  from e l have y: "y' = y" and r: "m @ p2 # d = m' @ p2' # d'" by simp_all
  have "takeWhile is_digit (m @ p2 # d) = m" "dropWhile is_digit (m @ p2 # d) = p2 # d"
    using m(1) p(1) by (simp_all add: digits_then_sep sep_not_digit)
  moreover have "takeWhile is_digit (m' @ p2' # d') = m'"
    "dropWhile is_digit (m' @ p2' # d') = p2' # d'"
    using m(2) p(2) by (simp_all add: digits_then_sep sep_not_digit)
  ultimately have "m' = m" "p2' # d' = p2 # d" using r by simp_all
  then show ?thesis using y by simp
qed

lemma match_date_sound:
  assumes "match_date n = Some (y, m, d)"
  shows "\<exists>p1 p2. n = y @ p1 # m @ p2 # d \<and> date_shape y p1 m p2 d"
proof -
  from assms obtain a b where ab: "a = 1 \<or> a = 2" "b = 1 \<or> b = 2"
    and t: "try_match a b n = Some (y, m, d)"
    unfolding match_date_def by (auto split: option.splits)
  from try_match_sound [OF t] ab show ?thesis
    unfolding date_shape_def by blast
qed

lemma match_date_complete:
  assumes n: "n = y @ p1 # m @ p2 # d" and s: "date_shape y p1 m p2 d"
  shows "match_date n = Some (y, m, d)"
proof -
  have u: "r = (y, m, d)" if "try_match a b n = Some r" for a b r
  proof -
    obtain y' m' d' where r: "r = (y', m', d')" by (cases r)
    from try_match_sound [OF that [unfolded r]] obtain p1' p2'
      where "n = y' @ p1' # m' @ p2' # d'" "length y' = 4" "list_all is_digit m'" "is_sep p2'"
      by blast
    then have "y' = y \<and> m' = m \<and> d' = d"
      using n s shape_unique [of y p1 m p2 d y' p1' m' p2' d'] by (simp add: date_shape_def)
    then show ?thesis using r by simp
  qed
  have t: "try_match (length m) (length d) n = Some (y, m, d)"
    using n s by (intro try_match_complete [where ?p1.0 = p1 and ?p2.0 = p2])
      (simp_all add: date_shape_def)
  have ab: "length m = 1 \<or> length m = 2" "length d = 1 \<or> length d = 2"
    using s by (simp_all add: date_shape_def)
  show ?thesis
  proof (cases "match_date n")
    case None
    then have "try_match 2 2 n = None" "try_match 2 1 n = None" "try_match 1 2 n = None"
      "try_match 1 1 n = None"
      unfolding match_date_def by (simp_all split: option.splits)
    then show ?thesis using t ab by auto
  next
    case (Some r)
    then obtain a b where "try_match a b n = Some r"
      unfolding match_date_def by (auto split: option.splits)
    then show ?thesis using u Some by simp
  qed
qed

lemma parse_of_shape:
  assumes "spec_normalize s = y @ p1 # m @ p2 # d" "date_shape y p1 m p2 d"
  shows "parseJalaliDateString s =
     (if decimal_value m < 1 \<or> 12 < decimal_value m \<or> decimal_value d < 1 \<or> 31 < decimal_value d
      then None else Some (decimal_value y, decimal_value m, decimal_value d))"
proof -
  have "match_date (trim (replace_persian s)) = Some (y, m, d)"
    using assms by (simp add: normalize_eq match_date_complete)
  then show ?thesis
    by (simp add: parseJalaliDateString_def Let_def parseInt10_decimal)
qed

lemma parse_Some_shape:
  assumes "parseJalaliDateString s = Some t"
  shows "\<exists>y p1 m p2 d. spec_normalize s = y @ p1 # m @ p2 # d \<and> date_shape y p1 m p2 d"
proof -
  from assms obtain y m d where "match_date (trim (replace_persian s)) = Some (y, m, d)"
    unfolding parseJalaliDateString_def Let_def by (auto split: option.splits)
  from match_date_sound [OF this] obtain p1 p2
    where "trim (replace_persian s) = y @ p1 # m @ p2 # d" "date_shape y p1 m p2 d"
    by blast
  then show ?thesis unfolding normalize_eq by blast
qed

lemma try_match_map:
  assumes dg: "\<And>c. is_digit (f c) = is_digit c"
    and sp: "\<And>c. is_sep (f c) = is_sep c"
    and fx: "\<And>c. is_digit c \<Longrightarrow> f c = c"
  shows "try_match a b (map f n) = try_match a b n"
proof -
  have id: "map f g = g" if "list_all is_digit g" for g
    using that by (induction g) (simp_all add: fx)
  have pd: "list_all is_digit (map f g) = list_all is_digit g" for g
    by (induction g) (simp_all add: dg)
  have ps: "list_all is_sep (map f g) = list_all is_sep g" for g
    by (induction g) (simp_all add: sp)
  define g1 where "g1 = take 4 n"
  define g2 where "g2 = take a (drop 1 (drop 4 n))"
  define g3 where "g3 = take b (drop 1 (drop a (drop 1 (drop 4 n))))"
  define C where "C \<longleftrightarrow>
       length g1 = 4 \<and> list_all is_digit g1
     \<and> length (take 1 (drop 4 n)) = 1 \<and> list_all is_sep (take 1 (drop 4 n))
     \<and> length g2 = a \<and> list_all is_digit g2
     \<and> length (take 1 (drop a (drop 1 (drop 4 n)))) = 1
     \<and> list_all is_sep (take 1 (drop a (drop 1 (drop 4 n))))
     \<and> length g3 = b \<and> list_all is_digit g3
     \<and> drop b (drop 1 (drop a (drop 1 (drop 4 n)))) = []"
  have 1: "try_match a b n = (if C then Some (g1, g2, g3) else None)"
    unfolding try_match_def Let_def C_def g1_def g2_def g3_def ..
  have "try_match a b (map f n) = (if C then Some (map f g1, map f g2, map f g3) else None)"
    unfolding try_match_def Let_def C_def g1_def g2_def g3_def
    by (simp only: drop_map take_map length_map pd ps map_is_Nil_conv)
  also have "\<dots> = (if C then Some (g1, g2, g3) else None)"
  proof (cases C)
    case True
    then have "list_all is_digit g1" "list_all is_digit g2" "list_all is_digit g3"
      unfolding C_def by blast+
    then show ?thesis by (simp add: id)
  next
    case False
    then show ?thesis by simp
  qed
  finally show ?thesis using 1 by simp
qed


section \<open>Substitutions that the parser does not see\<close>

lemma parse_map:
  assumes dg: "\<And>c. is_digit (f c) = is_digit c"
    and sp: "\<And>c. is_sep (f c) = is_sep c"
    and fx: "\<And>c. is_digit c \<Longrightarrow> f c = c"
    and ws: "\<And>c. is_js_space (f c) = is_js_space c"
    and lp: "\<And>c. latin_of_persian (f c) = f (latin_of_persian c)"
  shows "parseJalaliDateString (map f s) = parseJalaliDateString s"
proof -
  have n: "trim (replace_persian (map f s)) = map f (trim (replace_persian s))"
    by (simp add: replace_persian_map trim_map ws space_latin_of_persian lp)
  have tm: "try_match a b (map f n) = try_match a b n" for a b n
    using dg sp fx by (rule try_match_map)
  have md: "match_date (map f n) = match_date n" for n
    by (simp only: match_date_def tm)
  show ?thesis by (simp add: parseJalaliDateString_def n md)
qed

lemma parse_to_persian: "parseJalaliDateString (to_persian s) = parseJalaliDateString s"
proof -
  have "latin_of_persian (if is_digit c then c - 48 + 0x6F0 else c) = latin_of_persian c" for c
    by (auto simp: latin_of_persian_def is_digit_def)
  then have "replace_persian (to_persian s) = replace_persian s"
    by (simp add: replace_persian_map to_persian_def)
  then show ?thesis by (simp add: parseJalaliDateString_def)
qed

lemma dropWhile_hd: "xs \<noteq> [] \<Longrightarrow> \<not> P (hd xs) \<Longrightarrow> dropWhile P xs = xs"
  by (cases xs) simp_all

lemma trim_id:
  assumes "n \<noteq> []" "\<not> is_js_space (hd n)" "\<not> is_js_space (last n)"
  shows "trim n = n"
proof -
  have 1: "dropWhile is_js_space n = n" using assms(1,2) by (rule dropWhile_hd)
  have "rev n \<noteq> []" "\<not> is_js_space (hd (rev n))" using assms(1,3) by (simp_all add: hd_rev)
  then have 2: "dropWhile is_js_space (rev n) = rev n" by (rule dropWhile_hd)
  show ?thesis by (simp add: trim_def 1 2)
qed

lemma digit_plain: "is_digit c \<Longrightarrow> \<not> is_js_space c \<and> latin_of_persian c = c"
  by (auto simp: is_digit_def is_js_space_def latin_of_persian_def)

lemma sep_plain: "is_sep c \<Longrightarrow> latin_of_persian c = c"
  by (auto simp: is_sep_def latin_of_persian_def)

lemma digits_plain: "list_all is_digit g \<Longrightarrow> map latin_of_persian g = g"
  by (induction g) (simp_all add: digit_plain)

lemma normalize_shape_id:
  assumes s: "date_shape y p1 m p2 d"
  shows "spec_normalize (y @ p1 # m @ p2 # d) = y @ p1 # m @ p2 # d"
proof -
  let ?n = "y @ p1 # m @ p2 # d"
  from s have y: "y \<noteq> []" "list_all is_digit y" and d: "d \<noteq> []" "list_all is_digit d"
    and m: "list_all is_digit m" and p: "is_sep p1" "is_sep p2"
    unfolding date_shape_def by auto
  have "hd ?n = hd y" using y(1) by simp
  moreover have "is_digit (hd y)" using y by (cases y) simp_all
  ultimately have h: "\<not> is_js_space (hd ?n)" using digit_plain by simp
  have "last ?n = last d" using d(1) by simp
  moreover have "is_digit (last d)" using d by (metis last_in_set list_all_iff)
  ultimately have l: "\<not> is_js_space (last ?n)" using digit_plain by simp
  have "trim ?n = ?n" using h l by (intro trim_id) simp_all
  then show ?thesis
    using y m d p by (simp add: spec_normalize_def digits_plain sep_plain)
qed

lemma padStart_zero: "padStart str 2 [48] = zero_pad2 str"
proof -
  consider "length str = 0" | "length str = 1" | "2 \<le> length str" by linarith
  then show ?thesis
    by cases (simp_all add: padStart_def zero_pad2_def numeral_2_eq_2)
qed

lemma toGregorianISO_format:
  "toGregorianISO s =
     (case parseJalaliDateString s of None \<Rightarrow> None
      | Some (jy, jm, jd) \<Rightarrow> Some (format_iso (jalaliToGregorian jy jm jd)))"
  by (simp add: toGregorianISO_def format_iso_def padStart_zero Let_def
      split: option.splits prod.splits)

lemma String_js_nonempty: "String_js n \<noteq> []"
  by (simp add: String_js_def) (subst digits_of.simps, simp)

lemma toGregorianISO_nonempty: "toGregorianISO s \<noteq> Some []"
  by (simp add: toGregorianISO_format format_iso_def String_js_nonempty
      split: option.splits prod.splits)

lemma parse_slash_to_dash: "parseJalaliDateString (slash_to_dash s) = parseJalaliDateString s"
  unfolding slash_to_dash_def
  by (rule parse_map)
    (auto simp: is_digit_def is_sep_def is_js_space_def latin_of_persian_def)

lemma parse_dash_to_slash: "parseJalaliDateString (dash_to_slash s) = parseJalaliDateString s"
  unfolding dash_to_slash_def
  by (rule parse_map)
    (auto simp: is_digit_def is_sep_def is_js_space_def latin_of_persian_def)

lemma slash_shape: "date_shape y p1 m p2 d \<Longrightarrow> date_shape y 47 m 47 d"
  by (simp add: date_shape_def is_sep_def)


section \<open>Evaluation on the examples of the specification\<close>

lemmas parse_eval =
  parseJalaliDateString_def trim_def replace_persian_def is_persian_digit_def is_js_space_def
  match_date_def try_match_def is_digit_def is_sep_def parseInt10_def Let_def ascii_def
  indexOf_def persian_digits_def String_js_def digits_of.simps

lemma parse_1403_01_01: "parseJalaliDateString (ascii ''1403/01/01'') = Some (1403, 1, 1)"
  by (simp add: parse_eval)

lemma convert_1403_01_01: "jalaliToGregorian 1403 1 1 = (2024, 3, 20)"
  by code_simp

lemma garbage_unparsed: "parseJalaliDateString (ascii ''garbage'') = None"
  by (simp add: parse_eval)

lemma format_2024_03_20: "format_iso (2024, 3, 20) = ascii ''2024-03-20''"
  by (simp add: format_iso_def zero_pad2_def String_js_def digits_of.simps ascii_def)


section \<open>The request parameters\<close>

lemma params_from: "getSalesSummary_params f t ''from'' = (if truthy f then f else None)"
  by (simp add: getSalesSummary_params_def truthy_def Let_def split: option.splits)

lemma params_to: "getSalesSummary_params f t ''to'' = (if truthy t then t else None)"
  by (simp add: getSalesSummary_params_def truthy_def Let_def split: option.splits)

lemma params_nonempty: "getSalesSummary_params f t k \<noteq> Some []"
  by (simp add: getSalesSummary_params_def truthy_def Let_def split: option.splits)


section \<open>The store transformers compute the functions\<close>














section \<open>Reference pairs\<close>

text \<open>
  Claim C3.  The converter maps Jalali 1403-01-01 to Gregorian 2024-03-20 and Jalali
  1400-01-01 to Gregorian 2021-03-21.
\<close>

theorem reference_pairs:
  "jalaliToGregorian 1403 1 1 = (2024, 3, 20) \<and> jalaliToGregorian 1400 1 1 = (2021, 3, 21)"
  by code_simp


section \<open>Validity of the converted date\<close>

text \<open>
  Claim C2, as amended.  For a Jalali year from 979 on (and below \<open>2 ^ 44\<close>, where
  the arithmetic on doubles is exact), a month from 1 to 12 and a day from 1 to 31, the
  converter returns a valid Gregorian date: the month is from 1 to 12 and the day from 1
  to the length of that month, leap years by the rule of 4, 100 and 400.
\<close>

theorem jalaliToGregorian_valid:
  assumes jy: "979 \<le> jy" "jy < 2 ^ 44"
    and jm: "1 \<le> jm" "jm \<le> 12"
    and jd: "1 \<le> jd" "jd \<le> 31"
  shows "valid_gregorian (jalaliToGregorian jy jm jd)"
proof -
  define j0 where "j0 = 365 * (jy - 979) + div_js (jy - 979) 33 * 8
                         + div_js (js_rem (jy - 979) 33 + 3) 4"
  define G where "G = add_month_days 0 (jm - 1) j0 + (jd - 1) + 79"
  define gy0 where "gy0 = 1600 + 400 * div_js G 146097"
  define g where "g = js_rem G 146097"
  have j0: "0 \<le> j0" unfolding j0_def using jy by (intro rebased_days_nonneg) simp
  have "j0 \<le> add_month_days 0 (jm - 1) j0" by (rule add_month_days_ge)
  then have G: "0 \<le> G" using j0 jd by (simp add: G_def)
  have g_eq: "g = G mod 146097" using G by (simp add: g_def js_rem_nonneg)
  have g: "0 \<le> g" "g < 146097" by (simp_all add: g_eq)
  have gy0: "gy0 mod 400 = 0" by (simp add: gy0_def)
  obtain gy d leap where t: "year_step (quad_step (century_step (gy0, g, True))) = (gy, d, leap)"
    by (metis prod_cases3)
  have tv: "leap = is_leap_year gy \<and> 0 \<le> d \<and> d < (if leap then 366 else 365)"
    using g gy0 t by (rule tail_valid)
  then have lp: "leap = is_leap_year gy" and d0: "0 \<le> d"
    and d1: "d < (if leap then 366 else 365)"
    by blast+
  obtain gm r where w: "month_walk (gdMonthDays leap) 0 d = (gm, r)"
    by (metis surj_pair)
  have "case month_walk (gdMonthDays leap) 0 d of
          (gm', r) \<Rightarrow> gm' < 12 \<and> 0 \<le> r \<and> r < gdMonthDays leap ! gm'"
  proof (rule month_walk_in_table)
    show "length (gdMonthDays leap) = 12" by (rule gdMonthDays_length)
    show "0 \<le> d" by (rule d0)
    show "d < sum_list (drop 0 (gdMonthDays leap))" using d1 by (simp add: gdMonthDays_sum)
  qed
  then have gm: "gm < 12" and r: "0 \<le> r" "r < gdMonthDays leap ! gm"
    using w by simp_all
  have "gdMonthDays leap ! gm = daysInMonth gy (int gm + 1)"
    using lp gm gdMonthDays_nth by simp
  then have v: "valid_gregorian (gy, int gm + 1, r + 1)"
    using gm r by (simp add: valid_gregorian_def)
  have "jalaliToGregorian jy jm jd = (gy, int gm + 1, r + 1)"
    using t w by (simp add: jalaliToGregorian_def Let_def j0_def G_def gy0_def g_def)
  then show ?thesis using v by simp
qed

theorem jalaliToGregorian_valid_witness:
  "(979::int) \<le> 1403 \<and> (1403::int) < 2 ^ 44 \<and> (1::int) \<le> 12 \<and> (12::int) \<le> 12
   \<and> (1::int) \<le> 30 \<and> (30::int) \<le> 31 \<and> valid_gregorian (jalaliToGregorian 1403 12 30)"
  using jalaliToGregorian_valid [of 1403 12 30] by simp

text \<open>
  Claim C2 as stated fails below the epoch: for the Jalali date 0001-01-01 the day
  count is negative, the remainders follow its sign, and the returned day is \<open>- 648\<close>.
\<close>

theorem jalaliToGregorian_year_1_counterexample:
  "jalaliToGregorian 1 1 1 = (624, 1, - 648) \<and> \<not> valid_gregorian (jalaliToGregorian 1 1 1)"
  by code_simp


section \<open>Refinement of the reference algorithm\<close>

text \<open>
  Claim C1, as amended.  For a Jalali year from 979 up to \<open>979 + 33 * 2 ^ 31 - 1\<close>, a
  month from 1 to 12 and a day from 1 to 31, the converter and the nine-step algorithm of
  the specification return the same triple.  The code tests the century correction with
  \<open>36525\<close> where the specification says \<open>36524\<close>; at a remaining day count of
  exactly \<open>36524\<close> both paths give the same state, so the two functions agree there too.
\<close>

theorem converter_refines_spec:
  assumes jy: "979 \<le> jy" "jy < 979 + 33 * 2 ^ 31"
    and jm: "1 \<le> jm" "jm \<le> 12"
    and jd: "1 \<le> jd" "jd \<le> 31"
  shows "jalaliToGregorian jy jm jd = spec_convert jy jm jd"
proof -
  define y where "y = jy - 979"
  have y: "0 \<le> y" "y < 2 ^ 31 * 33" using jy by (simp_all add: y_def)
  have d33: "div_js y 33 = y div 33" using y by (intro div_js_nonneg) simp_all
  have r33: "js_rem y 33 = y mod 33" using y by (simp add: js_rem_nonneg)
  have m33: "0 \<le> y mod 33" "y mod 33 < 33" by simp_all
  then have d4: "div_js (y mod 33 + 3) 4 = (y mod 33 + 3) div 4"
    by (intro div_js_nonneg) simp_all
  define j0 where "j0 = 365 * y + y div 33 * 8 + (y mod 33 + 3) div 4"
  define off where "off = spec_month_offset (jm - 1)"
  have amd: "add_month_days 0 (jm - 1) j0 = j0 + off"
    using add_month_days_sum [of 0 "jm - 1" j0] by (simp add: off_def spec_month_offset_def)
  have off: "0 \<le> off" "off \<le> 341"
  proof -
    have n: "nat (jm - 1) \<le> 11" using jm by simp
    have b: "0 \<le> off \<and> off \<le> 31 * int (nat (jm - 1))"
      unfolding off_def spec_month_offset_def by (rule month_offset_bound)
    then show "0 \<le> off" by simp
    have "int (nat (jm - 1)) = jm - 1" using jm by simp
    then have "31 * int (nat (jm - 1)) \<le> 341" using jm by simp
    then show "off \<le> 341" using b by linarith
  qed
  have q33: "0 \<le> y div 33" "y div 33 \<le> y"
  proof -
    show "0 \<le> y div 33" using y by simp
    have "33 * (y div 33) + y mod 33 = y" by simp
    then show "y div 33 \<le> y" using m33 \<open>0 \<le> y div 33\<close> by linarith
  qed
  have q4: "0 \<le> (y mod 33 + 3) div 4" "(y mod 33 + 3) div 4 \<le> 8"
  proof -
    show "0 \<le> (y mod 33 + 3) div 4" using m33 by simp
    have "(y mod 33 + 3) div 4 \<le> 35 div 4" using m33 by (intro zdiv_mono1) simp_all
    then show "(y mod 33 + 3) div 4 \<le> 8" by simp
  qed
  define G where "G = j0 + off + (jd - 1) + 79"
  have G: "0 \<le> G" "G < 2 ^ 31 * 146097"
    using y q33 q4 off jd by (simp_all add: G_def j0_def)
  have dG: "div_js G 146097 = G div 146097" using G by (intro div_js_nonneg) simp_all
  have rG: "js_rem G 146097 = G mod 146097" using G by (simp add: js_rem_nonneg)
  have g: "0 \<le> G mod 146097" "G mod 146097 < 146097" by simp_all
  have tail: "spec_year (spec_quad (spec_century (gy0, G mod 146097, True)))
              = year_step (quad_step (century_step (gy0, G mod 146097, True)))" for gy0
    by (rule spec_tail_eq [OF g])
  have walk: "month_walk (gdMonthDays leap) 0 d
              = spec_walk [31, (if leap then 29 else 28), 31, 30, 31, 30, 31, 31, 30, 31, 30, 31] 0 d"
    for leap d
    using spec_walk_eq [of "gdMonthDays leap" 0 d] by (simp add: gdMonthDays_def)
  have code: "jalaliToGregorian jy jm jd =
      (case year_step (quad_step (century_step (1600 + 400 * (G div 146097), G mod 146097, True))) of
         (gy, g_day_no, leap) \<Rightarrow>
           (case month_walk (gdMonthDays leap) 0 g_day_no of
              (gm, g_day_no) \<Rightarrow> (gy, int gm + 1, g_day_no + 1)))"
    unfolding jalaliToGregorian_def Let_def y_def [symmetric] d33 r33 d4 j0_def [symmetric] amd
      G_def [symmetric] dG rG ..
  have spec: "spec_convert jy jm jd =
      (case spec_year (spec_quad (spec_century (1600 + 400 * (G div 146097), G mod 146097, True))) of
         (gregYear, dayCount, leap) \<Rightarrow>
           (case spec_walk [31, (if leap then 29 else 28), 31, 30, 31, 30, 31, 31, 30, 31, 30, 31]
                   0 dayCount of
              (m, d) \<Rightarrow> (gregYear, int m + 1, d + 1)))"
    unfolding spec_convert_def Let_def y_def [symmetric] j0_def [symmetric] off_def [symmetric]
      add.assoc [symmetric] G_def [symmetric] ..
  show ?thesis unfolding code spec tail walk ..
qed

theorem converter_refines_spec_witness:
  "(979::int) \<le> 1403 \<and> (1403::int) < 979 + 33 * 2 ^ 31 \<and> (1::int) \<le> 12 \<and> (12::int) \<le> 12
   \<and> (1::int) \<le> 30 \<and> (30::int) \<le> 31
   \<and> jalaliToGregorian 1403 12 30 = spec_convert 1403 12 30"
  using converter_refines_spec [of 1403 12 30] by simp

text \<open>
  Claim C1 as stated fails at both ends of the declared domain.  For the year 1 the
  rebased year is negative: the code truncates towards zero where the specification
  takes the floor, and the two results differ.  For the year \<open>979 + 33 * 2 ^ 31\<close> the
  quotient of \<^verbatim>\<open>div(jy, 33)\<close> is \<open>2 ^ 31\<close>, which \<^verbatim>\<open>| 0\<close> wraps to \<open>- (2 ^ 31)\<close>.
\<close>

theorem converter_refines_spec_counterexample:
  "jalaliToGregorian 1 1 1 = (624, 1, - 648) \<and> spec_convert 1 1 1 = (622, 3, 21)
   \<and> jalaliToGregorian 1 1 1 \<noteq> spec_convert 1 1 1
   \<and> jalaliToGregorian 70866961363 1 1 = (70772873516, 10, 3)
   \<and> spec_convert 70866961363 1 1 = (70866947285, 3, 10)
   \<and> jalaliToGregorian 70866961363 1 1 \<noteq> spec_convert 70866961363 1 1"
  by code_simp


section \<open>The last days of the leap year 1403\<close>

text \<open>
  Claim C6.  In the Jalali leap year 1403, day 30 of month 12 converts to a valid
  Gregorian date, 2025-03-20, which is the calendar day after the conversion of day 29
  of month 12, 2025-03-19.
\<close>

theorem leap_year_1403_last_days:
  "jalaliToGregorian 1403 12 29 = (2025, 3, 19)
   \<and> jalaliToGregorian 1403 12 30 = (2025, 3, 20)
   \<and> valid_gregorian (jalaliToGregorian 1403 12 30)
   \<and> jalaliToGregorian 1403 12 30 = next_day (jalaliToGregorian 1403 12 29)"
  by code_simp


section \<open>The composed function and the query\<close>

text \<open>
  Claim C4.  \<open>toGregorianISO\<close> returns \<^verbatim>\<open>undefined\<close> exactly when
  \<open>parseJalaliDateString\<close> returns \<^verbatim>\<open>null\<close>; otherwise it returns the year, the
  month padded to two digits and the day padded to two digits of the converted triple,
  joined by hyphens.  When it returns \<^verbatim>\<open>undefined\<close> for a bound, the parameters of
  the sales-summary request have no entry for that bound, and no entry is ever the
  empty string.
\<close>

theorem toGregorianISO_composition:
  "(toGregorianISO s = None \<longleftrightarrow> parseJalaliDateString s = None)
   \<and> (\<forall>jy jm jd. parseJalaliDateString s = Some (jy, jm, jd) \<longrightarrow>
          toGregorianISO s = Some (format_iso (jalaliToGregorian jy jm jd)))
   \<and> (toGregorianISO fromJ = None \<longrightarrow> sales_query_params fromJ toJ ''from'' = None)
   \<and> (toGregorianISO toJ = None \<longrightarrow> sales_query_params fromJ toJ ''to'' = None)
   \<and> sales_query_params fromJ toJ k \<noteq> Some []
   \<and> getSalesSummary_params None t ''from'' = None
   \<and> getSalesSummary_params f None ''to'' = None
   \<and> getSalesSummary_params f t k \<noteq> Some []"
proof (intro conjI allI impI)
  show "toGregorianISO s = None \<longleftrightarrow> parseJalaliDateString s = None"
    by (simp add: toGregorianISO_format split: option.splits prod.splits)
  show "toGregorianISO s = Some (format_iso (jalaliToGregorian jy jm jd))"
    if "parseJalaliDateString s = Some (jy, jm, jd)" for jy jm jd
    using that by (simp add: toGregorianISO_format)
  show "sales_query_params fromJ toJ ''from'' = None" if "toGregorianISO fromJ = None"
    using that by (simp add: sales_query_params_def params_from or_undefined_def truthy_def)
  show "sales_query_params fromJ toJ ''to'' = None" if "toGregorianISO toJ = None"
    using that by (simp add: sales_query_params_def params_to or_undefined_def truthy_def)
  show "sales_query_params fromJ toJ k \<noteq> Some []"
    by (simp add: sales_query_params_def params_nonempty)
  show "getSalesSummary_params None t ''from'' = None"
    by (simp add: params_from truthy_def)
  show "getSalesSummary_params f None ''to'' = None"
    by (simp add: params_to truthy_def)
  show "getSalesSummary_params f t k \<noteq> Some []"
    by (rule params_nonempty)
qed

theorem toGregorianISO_composition_witness:
  "parseJalaliDateString (ascii ''1403/01/01'') = Some (1403, 1, 1)
   \<and> toGregorianISO (ascii ''1403/01/01'') = Some (ascii ''2024-03-20'')
   \<and> toGregorianISO (ascii ''garbage'') = None
   \<and> sales_query_params (ascii ''garbage'') (ascii ''1403/01/01'') ''from'' = None
   \<and> sales_query_params (ascii ''1403/01/01'') (ascii ''garbage'') ''to'' = None"
proof -
  note c = toGregorianISO_composition
  have 1: "toGregorianISO (ascii ''1403/01/01'') = Some (ascii ''2024-03-20'')"
    using c [of "ascii ''1403/01/01''", THEN conjunct2, THEN conjunct1, rule_format,
        OF parse_1403_01_01]
    by (simp add: convert_1403_01_01 format_2024_03_20)
  have 2: "toGregorianISO (ascii ''garbage'') = None"
    using c [of "ascii ''garbage''", THEN conjunct1] garbage_unparsed by simp
  have 3: "sales_query_params (ascii ''garbage'') (ascii ''1403/01/01'') ''from'' = None"
    using c [of _ "ascii ''garbage''", THEN conjunct2, THEN conjunct2, THEN conjunct1,
        rule_format, OF 2] .
  have 4: "sales_query_params (ascii ''1403/01/01'') (ascii ''garbage'') ''to'' = None"
    using c [of _ _ "ascii ''garbage''", THEN conjunct2, THEN conjunct2, THEN conjunct2,
        THEN conjunct1, rule_format, OF 2] .
  show ?thesis using parse_1403_01_01 1 2 3 4 by simp
qed


section \<open>Rejection of malformed input\<close>

text \<open>
  Claim C5.  \<open>parseJalaliDateString\<close> returns \<^verbatim>\<open>null\<close> if and only if the
  input, trimmed and with its Persian digits mapped to Latin ones, is not as a whole
  four digits, a separator, one or two digits, a separator and one or two digits, or the
  month is outside 1 to 12, or the day is outside 1 to 31; otherwise it returns the three
  parsed integers.  The empty string, \<^verbatim>\<open>not-a-date\<close> and \<^verbatim>\<open>2024/13/01\<close> give
  \<^verbatim>\<open>null\<close>.
\<close>

theorem parse_null_iff:
  "(parseJalaliDateString s = None \<longleftrightarrow>
      (\<not> (\<exists>y p1 m p2 d. spec_normalize s = y @ p1 # m @ p2 # d \<and> date_shape y p1 m p2 d)
       \<or> (\<exists>y p1 m p2 d. spec_normalize s = y @ p1 # m @ p2 # d \<and> date_shape y p1 m p2 d
             \<and> (decimal_value m < 1 \<or> 12 < decimal_value m
                  \<or> decimal_value d < 1 \<or> 31 < decimal_value d))))
   \<and> (\<forall>y p1 m p2 d. spec_normalize s = y @ p1 # m @ p2 # d \<and> date_shape y p1 m p2 d
          \<and> 1 \<le> decimal_value m \<and> decimal_value m \<le> 12
          \<and> 1 \<le> decimal_value d \<and> decimal_value d \<le> 31
        \<longrightarrow> parseJalaliDateString s = Some (decimal_value y, decimal_value m, decimal_value d))
   \<and> parseJalaliDateString [] = None
   \<and> parseJalaliDateString (ascii ''not-a-date'') = None
   \<and> parseJalaliDateString (ascii ''2024/13/01'') = None"
proof (intro conjI allI impI)
  show "parseJalaliDateString s = None \<longleftrightarrow>
      (\<not> (\<exists>y p1 m p2 d. spec_normalize s = y @ p1 # m @ p2 # d \<and> date_shape y p1 m p2 d)
       \<or> (\<exists>y p1 m p2 d. spec_normalize s = y @ p1 # m @ p2 # d \<and> date_shape y p1 m p2 d
             \<and> (decimal_value m < 1 \<or> 12 < decimal_value m
                  \<or> decimal_value d < 1 \<or> 31 < decimal_value d)))"
    (is "?L \<longleftrightarrow> ?N \<or> ?R")
  proof
    assume l: ?L
    show "?N \<or> ?R"
    proof (cases ?N)
      case True
      then show ?thesis ..
    next
      case False
      then obtain y p1 m p2 d
        where sh: "spec_normalize s = y @ p1 # m @ p2 # d" "date_shape y p1 m p2 d"
        by blast
      from parse_of_shape [OF sh] l
      have "decimal_value m < 1 \<or> 12 < decimal_value m
            \<or> decimal_value d < 1 \<or> 31 < decimal_value d"
        by (simp split: if_splits)
      with sh have ?R by blast
      then show ?thesis ..
    qed
  next
    assume "?N \<or> ?R"
    then show ?L
    proof
      assume n: ?N
      show ?L
      proof (cases "parseJalaliDateString s")
        case None
        then show ?thesis .
      next
        case (Some t)
        from parse_Some_shape [OF this] n show ?thesis by blast
      qed
    next
      assume ?R
      then obtain y p1 m p2 d
        where sh: "spec_normalize s = y @ p1 # m @ p2 # d" "date_shape y p1 m p2 d"
          and out: "decimal_value m < 1 \<or> 12 < decimal_value m
                    \<or> decimal_value d < 1 \<or> 31 < decimal_value d"
        by blast
      from parse_of_shape [OF sh] out show ?L by simp
    qed
  qed
next
  fix y p1 m p2 d
  assume a: "spec_normalize s = y @ p1 # m @ p2 # d \<and> date_shape y p1 m p2 d
          \<and> 1 \<le> decimal_value m \<and> decimal_value m \<le> 12
          \<and> 1 \<le> decimal_value d \<and> decimal_value d \<le> 31"
  then have sh: "spec_normalize s = y @ p1 # m @ p2 # d" "date_shape y p1 m p2 d" by simp_all
  from parse_of_shape [OF sh] a
  show "parseJalaliDateString s = Some (decimal_value y, decimal_value m, decimal_value d)"
    by simp
next
  show "parseJalaliDateString [] = None" by (simp add: parse_eval)
  show "parseJalaliDateString (ascii ''not-a-date'') = None" by (simp add: parse_eval)
  show "parseJalaliDateString (ascii ''2024/13/01'') = None" by (simp add: parse_eval)
qed

theorem parse_null_iff_witness:
  "spec_normalize (ascii ''1403/01/01'') = ascii ''1403'' @ 47 # ascii ''01'' @ 47 # ascii ''01''
   \<and> date_shape (ascii ''1403'') 47 (ascii ''01'') 47 (ascii ''01'')
   \<and> decimal_value (ascii ''01'') = 1
   \<and> parseJalaliDateString (ascii ''1403/01/01'') = Some (1403, 1, 1)"
proof -
  have n: "spec_normalize (ascii ''1403/01/01'')
           = ascii ''1403'' @ 47 # ascii ''01'' @ 47 # ascii ''01''"
    by (simp add: spec_normalize_def trim_def latin_of_persian_def is_js_space_def ascii_def)
  have sh: "date_shape (ascii ''1403'') 47 (ascii ''01'') 47 (ascii ''01'')"
    by (simp add: date_shape_def is_digit_def is_sep_def ascii_def)
  have v: "decimal_value (ascii ''1403'') = 1403" "decimal_value (ascii ''01'') = 1"
    by (simp_all add: decimal_value_def ascii_def)
  have "parseJalaliDateString (ascii ''1403/01/01'')
        = Some (decimal_value (ascii ''1403''), decimal_value (ascii ''01''),
                decimal_value (ascii ''01''))"
    using parse_null_iff [of "ascii ''1403/01/01''", THEN conjunct2, THEN conjunct1,
        rule_format, of "ascii ''1403''" 47 "ascii ''01''" 47 "ascii ''01''"] n sh v
    by simp
  then show ?thesis using n sh v by simp
qed


section \<open>Digit normalisation\<close>

text \<open>
  Claim C7.  Replacing each Latin digit of a string by the Persian digit of the same
  value does not change the result of \<open>parseJalaliDateString\<close>; the Persian spelling of
  \<^verbatim>\<open>1403/01/01\<close> parses to the same triple as the Latin one.
\<close>

theorem persian_digits_same_parse:
  "parseJalaliDateString (to_persian s) = parseJalaliDateString s
   \<and> to_persian (ascii ''1403/01/01'')
       = [0x6F1, 0x6F4, 0x6F0, 0x6F3, 47, 0x6F0, 0x6F1, 47, 0x6F0, 0x6F1]
   \<and> parseJalaliDateString [0x6F1, 0x6F4, 0x6F0, 0x6F3, 47, 0x6F0, 0x6F1, 47, 0x6F0, 0x6F1]
       = parseJalaliDateString (ascii ''1403/01/01'')
   \<and> parseJalaliDateString (ascii ''1403/01/01'') = Some (1403, 1, 1)"
proof (intro conjI)
  show "parseJalaliDateString (to_persian s) = parseJalaliDateString s"
    by (rule parse_to_persian)
  show p: "to_persian (ascii ''1403/01/01'')
       = [0x6F1, 0x6F4, 0x6F0, 0x6F3, 47, 0x6F0, 0x6F1, 47, 0x6F0, 0x6F1]"
    by (simp add: to_persian_def is_digit_def ascii_def)
  show "parseJalaliDateString [0x6F1, 0x6F4, 0x6F0, 0x6F3, 47, 0x6F0, 0x6F1, 47, 0x6F0, 0x6F1]
       = parseJalaliDateString (ascii ''1403/01/01'')"
    unfolding p [symmetric] by (rule parse_to_persian)
  show "parseJalaliDateString (ascii ''1403/01/01'') = Some (1403, 1, 1)"
    by (rule parse_1403_01_01)
qed


section \<open>Separator flexibility\<close>

text \<open>
  Claim C8.  Replacing the slashes of a string by hyphens, or its hyphens by slashes,
  does not change the result of \<open>parseJalaliDateString\<close>; \<^verbatim>\<open>1403-01-01\<close> and
  \<^verbatim>\<open>1403/01/01\<close> parse to the same triple.
\<close>

theorem separator_same_parse:
  "parseJalaliDateString (slash_to_dash s) = parseJalaliDateString s
   \<and> parseJalaliDateString (dash_to_slash s) = parseJalaliDateString s
   \<and> slash_to_dash (ascii ''1403/01/01'') = ascii ''1403-01-01''
   \<and> parseJalaliDateString (ascii ''1403-01-01'') = parseJalaliDateString (ascii ''1403/01/01'')
   \<and> parseJalaliDateString (ascii ''1403/01/01'') = Some (1403, 1, 1)"
proof (intro conjI)
  show "parseJalaliDateString (slash_to_dash s) = parseJalaliDateString s"
    by (rule parse_slash_to_dash)
  show "parseJalaliDateString (dash_to_slash s) = parseJalaliDateString s"
    by (rule parse_dash_to_slash)
  show p: "slash_to_dash (ascii ''1403/01/01'') = ascii ''1403-01-01''"
    by (simp add: slash_to_dash_def ascii_def)
  show "parseJalaliDateString (ascii ''1403-01-01'') = parseJalaliDateString (ascii ''1403/01/01'')"
    unfolding p [symmetric] by (rule parse_slash_to_dash)
  show "parseJalaliDateString (ascii ''1403/01/01'') = Some (1403, 1, 1)"
    by (rule parse_1403_01_01)
qed

text \<open>
  Claim C10.  The two separators are matched independently: a date string parses to
  the same result whichever of the two separator characters stands at each place, and
  the mixed input \<^verbatim>\<open>1403/01-01\<close> is accepted with the triple of \<^verbatim>\<open>1403/01/01\<close>.
\<close>

theorem separators_independent:
  "(date_shape y p1 m p2 d \<longrightarrow>
      parseJalaliDateString (y @ p1 # m @ p2 # d) = parseJalaliDateString (y @ 47 # m @ 47 # d))
   \<and> parseJalaliDateString (ascii ''1403/01-01'') = Some (1403, 1, 1)
   \<and> parseJalaliDateString (ascii ''1403-01/01'') = Some (1403, 1, 1)
   \<and> parseJalaliDateString (ascii ''1403/01/01'') = Some (1403, 1, 1)"
proof (intro conjI impI)
  assume s: "date_shape y p1 m p2 d"
  have "parseJalaliDateString (y @ p1 # m @ p2 # d) =
     (if decimal_value m < 1 \<or> 12 < decimal_value m \<or> decimal_value d < 1 \<or> 31 < decimal_value d
      then None else Some (decimal_value y, decimal_value m, decimal_value d))"
    using normalize_shape_id [OF s] s by (rule parse_of_shape)
  moreover have "parseJalaliDateString (y @ 47 # m @ 47 # d) =
     (if decimal_value m < 1 \<or> 12 < decimal_value m \<or> decimal_value d < 1 \<or> 31 < decimal_value d
      then None else Some (decimal_value y, decimal_value m, decimal_value d))"
    using normalize_shape_id [OF slash_shape [OF s]] slash_shape [OF s] by (rule parse_of_shape)
  ultimately show "parseJalaliDateString (y @ p1 # m @ p2 # d)
                   = parseJalaliDateString (y @ 47 # m @ 47 # d)"
    by simp
next
  show "parseJalaliDateString (ascii ''1403/01-01'') = Some (1403, 1, 1)"
    by (simp add: parse_eval)
  show "parseJalaliDateString (ascii ''1403-01/01'') = Some (1403, 1, 1)"
    by (simp add: parse_eval)
  show "parseJalaliDateString (ascii ''1403/01/01'') = Some (1403, 1, 1)"
    by (rule parse_1403_01_01)
qed

theorem separators_independent_witness:
  "date_shape (ascii ''1403'') 47 (ascii ''01'') 45 (ascii ''01'')
   \<and> parseJalaliDateString (ascii ''1403'' @ 47 # ascii ''01'' @ 45 # ascii ''01'')
       = parseJalaliDateString (ascii ''1403'' @ 47 # ascii ''01'' @ 47 # ascii ''01'')"
proof -
  have sh: "date_shape (ascii ''1403'') 47 (ascii ''01'') 45 (ascii ''01'')"
    by (simp add: date_shape_def is_digit_def is_sep_def ascii_def)
  from separators_independent [of "ascii ''1403''" 47 "ascii ''01''" 45 "ascii ''01''",
      THEN conjunct1, rule_format, OF sh] sh
  show ?thesis by (rule conjI [rotated])
qed


section \<open>Determinism\<close>


end
